theory Spec2Isabelle
  imports Main
begin

section \<open>Strings\<close>

text \<open>
  Go strings are byte sequences; \<^typ>\<open>string\<close> is a list of 8-bit characters, so
  \<open>len(s)\<close> is \<^term>\<open>length s\<close> and \<open>s[i]\<close> is \<^term>\<open>s ! i\<close> (guarded by the length
  checks the source makes before indexing).
\<close>

text \<open>\<open>strings.ContainsAny(s, chars)\<close> for a set of ASCII characters.\<close>

definition containsAny :: "string \<Rightarrow> string \<Rightarrow> bool" where
  "containsAny s chars = list_ex (\<lambda>c. c \<in> set chars) s"


text \<open>\<open>sanitizeContent\<close>: \<open>strings.ReplaceAll(s, "[", "[[]")\<close>.\<close>

definition sanitizeContent :: "string \<Rightarrow> string" where
  "sanitizeContent s = concat (map (\<lambda>c. if c = CHR ''['' then ''[[]'' else [c]) s)"

text \<open>
  \<open>safeColorTag\<close> (views/chat\_view.go). The slice \<open>tag[1 : len(tag)-1]\<close> is
  \<^term>\<open>take (length tag - 2) (drop 1 tag)\<close>; it is only computed when \<open>len(tag) \<ge> 3\<close>.
\<close>

definition safeColorTag :: "string \<Rightarrow> string" where
  "safeColorTag tag =
     (if length tag < 3 then ''[white]''
      else if tag ! 0 \<noteq> CHR ''['' \<or> tag ! (length tag - 1) \<noteq> CHR '']'' then ''[white]''
      else (let inner = take (length tag - 2) (drop 1 tag)
            in if containsAny inner ''[]'' then ''[white]'' else tag))"


subsection \<open>Messages and line formatting\<close>

text \<open>
  \<open>models.Message\<close> is declared outside the files at hand; the fields below are the
  ones \<open>formatLine\<close> reads. \<open>FormatTime\<close> stands for the result of the method
  \<open>msg.FormatTime()\<close>.
\<close>

record Message =
  IsSystem :: bool
  Username :: string
  Content :: string
  Color :: string
  FormatTime :: string

text \<open>The UTF-8 bytes of the two non-ASCII glyphs used in the format strings.\<close>

definition glyphTriangle :: string where
  "glyphTriangle = [CHR 0xE2, CHR 0x96, CHR 0xB8]"

definition glyphCursor :: string where
  "glyphCursor = [CHR 0xE2, CHR 0x96, CHR 0x8B]"

definition newline :: string where
  "newline = [CHR 0x0A]"

text \<open>
  \<open>formatLine\<close>. The test \<open>color == ""\<close> after \<open>safeColorTag\<close> is kept as written.
\<close>

definition lineColor :: "Message \<Rightarrow> string" where
  "lineColor msg = (let color = safeColorTag (Color msg) in if color = [] then ''[white]'' else color)"

definition formatLine :: "Message \<Rightarrow> string" where
  "formatLine msg =
     (if IsSystem msg then ''[yellow]'' @ glyphTriangle @ '' '' @ Content msg @ ''[-]'' @ newline
      else (let color = lineColor msg;
                ts = FormatTime msg;
                safeUser = sanitizeContent (Username msg);
                safeContent = sanitizeContent (Content msg)
            in ''[gray]['' @ ts @ ''][-] '' @ color @ ''[[]'' @ safeUser @ ''][-] '' @ color
               @ safeContent @ ''[-]'' @ newline))"



section \<open>The render buffer of the chat view\<close>

text \<open>
  Go's \<open>int\<close> on a 64-bit platform: the result of an arithmetic operation is reduced
  to the signed 64-bit range.
\<close>

definition wrapInt :: "int \<Rightarrow> int" where
  "wrapInt x = (x + 2 ^ 63) mod 2 ^ 64 - 2 ^ 63"

text \<open>
  The fields of \<open>ChatView\<close> that make up the message render model, the atomic flag
  \<open>stopped\<close> (here \<open>viewStopped\<close>, \<^term>\<open>True\<close> for the value 1), and the text last
  handed to \<open>messageView.SetText\<close>. The widgets, the header and the input history play
  no part in the render model.
\<close>

record ChatView =
  viewStopped :: bool
  committedText :: string
  inFlight :: "int \<rightharpoonup> string"
  nextAnimID :: int
  inFlightGen :: int
  messageView :: string

text \<open>
  \<open>NewChatView\<close>: the zero values of the struct, an empty slot map, and
  \<open>messageView.SetText("")\<close> from \<open>buildUI\<close>.
\<close>

definition NewChatView :: ChatView where
  "NewChatView = \<lparr>viewStopped = False, committedText = [], inFlight = Map.empty,
     nextAnimID = 0, inFlightGen = 0, messageView = []\<rparr>"

text \<open>
  The loop of \<open>renderMessages\<close>: \<open>for i := 0; i < c.nextAnimID; i++\<close>, appending the
  line of every slot that is present. The counter stays below \<open>nextAnimID\<close>, so its
  increment cannot overflow.
\<close>

function renderLoop :: "int \<Rightarrow> int \<Rightarrow> (int \<rightharpoonup> string) \<Rightarrow> string \<Rightarrow> string" where
  "renderLoop i n slots text =
     (if i < n
      then renderLoop (i + 1) n slots (case slots i of Some line \<Rightarrow> text @ line | None \<Rightarrow> text)
      else text)"
  by pat_completeness auto
termination
  by (relation "measure (\<lambda>(i, n, slots, text). nat (n - i))") auto

declare renderLoop.simps [simp del]

definition renderMessages :: "ChatView \<Rightarrow> ChatView" where
  "renderMessages c =
     c\<lparr>messageView := renderLoop 0 (nextAnimID c) (inFlight c) (committedText c)\<rparr>"

text \<open>\<open>AddMessage\<close>: runs in the event loop.\<close>

definition AddMessage :: "Message \<Rightarrow> ChatView \<Rightarrow> ChatView" where
  "AddMessage msg c = renderMessages (c\<lparr>committedText := committedText c @ formatLine msg\<rparr>)"

text \<open>
  The closures that \<open>AddIncomingMessage\<close> and its animation goroutine queue on the
  event loop. Each is a function of the view state at the moment the event loop runs it.
\<close>

text \<open>The static-mode draw.\<close>

definition staticDraw :: "string \<Rightarrow> string \<Rightarrow> ChatView \<Rightarrow> ChatView" where
  "staticDraw prefix content c =
     (if viewStopped c then c
      else renderMessages
             (c\<lparr>committedText := committedText c @ prefix @ sanitizeContent content @ ''[-]'' @ newline\<rparr>))"

text \<open>
  The slot allocation of animation mode; the pair is the \<open>animSlot{id, gen}\<close> sent on
  \<open>slotCh\<close>.
\<close>

definition animInit :: "string \<Rightarrow> ChatView \<Rightarrow> (int \<times> int) \<times> ChatView" where
  "animInit prefix c =
     (if viewStopped c then ((- 1, - 1), c)
      else (let animID = nextAnimID c;
                c1 = c\<lparr>nextAnimID := wrapInt (nextAnimID c + 1)\<rparr>;
                gen = inFlightGen c1;
                c2 = c1\<lparr>inFlight := (inFlight c1)(animID \<mapsto> prefix @ ''[dim]'' @ glyphCursor @ ''[-]'')\<rparr>
            in ((animID, gen), renderMessages c2)))"

text \<open>The word-tick callback, with the values its closure captured.\<close>

definition wordTick :: "int \<Rightarrow> int \<Rightarrow> string \<Rightarrow> string \<Rightarrow> bool \<Rightarrow> ChatView \<Rightarrow> ChatView" where
  "wordTick animID myGen prefix snapshot isLast c =
     (if viewStopped c then c
      else if inFlightGen c \<noteq> myGen then c
      else (let sanitized = sanitizeContent snapshot
            in if isLast
               then renderMessages
                      (c\<lparr>inFlight := (inFlight c)(animID := None),
                         committedText := committedText c @ prefix @ sanitized @ ''[-]'' @ newline\<rparr>)
               else renderMessages
                      (c\<lparr>inFlight := (inFlight c)(animID \<mapsto> prefix @ sanitized @ '' [dim]'' @ glyphCursor @ ''[-]'')\<rparr>)))"

text \<open>The callback queued by \<open>SetMessages\<close>.\<close>

definition SetMessages :: "Message list \<Rightarrow> ChatView \<Rightarrow> ChatView" where
  "SetMessages messages c =
     (if viewStopped c then c
      else renderMessages (c\<lparr>committedText := concat (map formatLine messages), inFlight := Map.empty\<rparr>))"

definition ClearMessages :: "ChatView \<Rightarrow> ChatView" where
  "ClearMessages c =
     renderMessages (c\<lparr>committedText := [], inFlight := Map.empty,
                       inFlightGen := wrapInt (inFlightGen c + 1)\<rparr>)"

text \<open>\<open>Stop\<close> of the view: \<open>atomic.StoreInt32(&c.stopped, 1)\<close>.\<close>

definition StopView :: "ChatView \<Rightarrow> ChatView" where
  "StopView c = c\<lparr>viewStopped := True\<rparr>"

text \<open>
  The body of the animation goroutine once it has its slot: the word-tick callbacks it
  queues, in order. \<open>first\<close> is the test \<open>i == 0\<close>, and \<open>isLast\<close> holds for the last
  word. The goroutine may return early when the view is stopped, so what it really queues
  is a prefix of this list.
\<close>

datatype update =
    UAddMessage Message
  | UStaticDraw string string
  | UAnimInit string
  | UWordTick int int string string bool
  | USetMessages "Message list"
  | UClearMessages
  | UStop



text \<open>
  The event loop runs the queued updates one at a time. \<open>applyUpdate\<close> runs one of
  them and \<open>runUpdates\<close> a whole queue.
\<close>

fun applyUpdate :: "update \<Rightarrow> ChatView \<Rightarrow> ChatView" where
  "applyUpdate (UAddMessage msg) c = AddMessage msg c"
| "applyUpdate (UStaticDraw prefix content) c = staticDraw prefix content c"
| "applyUpdate (UAnimInit prefix) c = snd (animInit prefix c)"
| "applyUpdate (UWordTick animID myGen prefix snapshot isLast) c =
     wordTick animID myGen prefix snapshot isLast c"
| "applyUpdate (USetMessages messages) c = SetMessages messages c"
| "applyUpdate UClearMessages c = ClearMessages c"
| "applyUpdate UStop c = StopView c"




text \<open>
  The view together with the animation goroutines started so far, each with the values
  its closures captured: the slot \<open>animSlot{id, gen}\<close> it received on \<open>slotCh\<close> and its
  \<open>prefix\<close>. \<open>stepSystem\<close> is one turn of the event loop. The anim-init callback starts
  a goroutine. A word tick is queued only by a goroutine, with the slot and prefix of
  that goroutine, and only when \<open>slot.id\<close> is not negative; the snapshot and the
  \<open>isLast\<close> flag of a tick are left open, so every order in which the goroutines and the
  other callers can queue their callbacks is a list of updates.
\<close>

record System =
  view :: ChatView
  goroutines :: "((int \<times> int) \<times> string) list"

definition NewSystem :: System where
  "NewSystem = \<lparr>view = NewChatView, goroutines = []\<rparr>"

fun stepSystem :: "update \<Rightarrow> System \<Rightarrow> System" where
  "stepSystem (UAnimInit prefix) s =
     \<lparr>view = snd (animInit prefix (view s)),
      goroutines = goroutines s @ [(fst (animInit prefix (view s)), prefix)]\<rparr>"
| "stepSystem (UWordTick animID myGen prefix snapshot isLast) s =
     (if ((animID, myGen), prefix) \<in> set (goroutines s) \<and> 0 \<le> animID
      then s\<lparr>view := wordTick animID myGen prefix snapshot isLast (view s)\<rparr>
      else s)"
| "stepSystem u s = s\<lparr>view := applyUpdate u (view s)\<rparr>"

fun runSystem :: "update list \<Rightarrow> System \<Rightarrow> System" where
  "runSystem [] s = s"
| "runSystem (u # us) s = runSystem us (stepSystem u s)"

text \<open>The slot ids handed to goroutines, in the order of allocation.\<close>

definition slotIds :: "System \<Rightarrow> int list" where
  "slotIds s = filter (\<lambda>i. 0 \<le> i) (map (\<lambda>t. fst (fst t)) (goroutines s))"

text \<open>
  The visible transcript in the words of the specification: the committed buffer followed
  by the text of every live slot in ascending order of slot id.
\<close>

definition liveSlots :: "ChatView \<Rightarrow> int list" where
  "liveSlots c = sorted_list_of_set (dom (inFlight c))"

definition composedTranscript :: "ChatView \<Rightarrow> string" where
  "composedTranscript c = committedText c @ concat (map (\<lambda>i. the (inFlight c i)) (liveSlots c))"

definition renderInv :: "ChatView \<Rightarrow> bool" where
  "renderInv c \<longleftrightarrow>
     messageView c = composedTranscript c \<and> dom (inFlight c) \<subseteq> {0 ..< nextAnimID c}"

text \<open>The text one slot contributes to the transcript: its line when live, nothing otherwise.\<close>

definition slotText :: "(int \<rightharpoonup> string) \<Rightarrow> int \<Rightarrow> string" where
  "slotText slots j = (case slots j of Some line \<Rightarrow> line | None \<Rightarrow> [])"

text \<open>
  What holds of the system after at most \<open>n\<close> turns of the event loop: the transcript is
  composed, both counters lie between 0 and \<open>n\<close>, every goroutine holds a slot id below
  the counter and a generation not above the current one, and the slot ids handed out
  increase strictly.
\<close>

definition sysInv :: "int \<Rightarrow> System \<Rightarrow> bool" where
  "sysInv n s \<longleftrightarrow>
     renderInv (view s) \<and>
     0 \<le> nextAnimID (view s) \<and> nextAnimID (view s) \<le> n \<and>
     0 \<le> inFlightGen (view s) \<and> inFlightGen (view s) \<le> n \<and>
     (\<forall>t \<in> set (goroutines s). fst (fst t) < nextAnimID (view s) \<and> snd (fst t) \<le> inFlightGen (view s)) \<and>
     sorted_wrt (<) (slotIds s)"

section \<open>The sync client\<close>

subsection \<open>Poll entries\<close>

text \<open>
  A \<open>json.RawMessage\<close> as \<open>json.Unmarshal\<close> into a string field sees it: a JSON string
  sets the field, and any other value leaves the field as it was (for \<open>null\<close> without an
  error, otherwise with an error that the caller drops).
\<close>

datatype json = JString string | JOther

definition unmarshalString :: "json \<Rightarrow> string \<Rightarrow> string" where
  "unmarshalString v field = (case v of JString x \<Rightarrow> x | JOther \<Rightarrow> field)"

text \<open>
  One element of \<open>rawList\<close>, a \<open>map[string]json.RawMessage\<close>: its keys, which are
  distinct, with their values, in the order in which \<open>range\<close> visits them. The lookup
  \<open>raw[key]\<close> is \<^term>\<open>map_of raw key\<close>.
\<close>

type_synonym rawEntry = "(string \<times> json) list"

text \<open>
  \<open>pollMessage\<close>. The field \<open>Timestamp\<close> is decoded and never read, and is left out.
  The fields carry the prefix \<open>p\<close> because \<open>Username\<close>, \<open>Content\<close> and \<open>Color\<close> are
  fields of \<open>Message\<close> already.
\<close>

record pollMessage =
  pUsername :: string
  pContent :: string
  pColor :: string
  pID :: string

definition knownPollKeys :: "string \<Rightarrow> bool" where
  "knownPollKeys key \<longleftrightarrow> key \<in> set [''color'', ''id'', ''timestamp'']"

text \<open>
  The loop \<open>for key, val := range raw\<close> of \<open>parsePollMessages\<close>: it skips the known keys
  and stops at the first other key.
\<close>

fun firstUnknown :: "rawEntry \<Rightarrow> (string \<times> json) option" where
  "firstUnknown [] = None"
| "firstUnknown ((key, val) # rest) =
     (if knownPollKeys key then firstUnknown rest else Some (key, val))"

text \<open>The body of the loop over \<open>rawList\<close>, up to the test for a malformed entry.\<close>

definition parseEntry :: "rawEntry \<Rightarrow> pollMessage" where
  "parseEntry raw =
     (let msg0 = \<lparr>pUsername = [], pContent = [], pColor = [], pID = []\<rparr>;
          msg1 = (case map_of raw ''color'' of
                    Some v \<Rightarrow> msg0\<lparr>pColor := unmarshalString v (pColor msg0)\<rparr> | None \<Rightarrow> msg0);
          msg2 = (case map_of raw ''id'' of
                    Some v \<Rightarrow> msg1\<lparr>pID := unmarshalString v (pID msg1)\<rparr> | None \<Rightarrow> msg1)
      in case firstUnknown raw of
           Some (key, val) \<Rightarrow> msg2\<lparr>pUsername := key, pContent := unmarshalString val (pContent msg2)\<rparr>
         | None \<Rightarrow> msg2)"

text \<open>The test \<open>msg.Username == "" || msg.Content == "" || msg.ID == ""\<close>.\<close>

definition malformed :: "pollMessage \<Rightarrow> bool" where
  "malformed msg \<longleftrightarrow> pUsername msg = [] \<or> pContent msg = [] \<or> pID msg = []"

fun parseLoop :: "rawEntry list \<Rightarrow> pollMessage list \<Rightarrow> pollMessage list" where
  "parseLoop [] msgs = msgs"
| "parseLoop (raw # rest) msgs =
     (let msg = parseEntry raw
      in if malformed msg then parseLoop rest msgs else parseLoop rest (msgs @ [msg]))"

datatype error =
    ParsePollArray
  | RequestFailed
  | RejectedAccessKey
  | ReadPollBody
  | UnexpectedHTTP int

text \<open>
  \<open>parsePollMessages\<close>. Its argument is the outcome of
  \<open>json.Unmarshal(data, &rawList)\<close>: \<^term>\<open>None\<close> for an error, otherwise the list of
  raw entries. The result on success is never the nil slice.
\<close>

definition parsePollMessages :: "rawEntry list option \<Rightarrow> error + pollMessage list" where
  "parsePollMessages data =
     (case data of None \<Rightarrow> Inl ParsePollArray | Some rawList \<Rightarrow> Inr (parseLoop rawList []))"

text \<open>
  A well-formed entry in the words of the specification: it has an id, an author key and
  a body value. The id is a non-empty string under the key \<open>id\<close>, the author key is the
  key that is not one of the known ones, and the body is its value, a non-empty string.
\<close>

definition wellFormedEntry :: "rawEntry \<Rightarrow> bool" where
  "wellFormedEntry raw \<longleftrightarrow>
     (case map_of raw ''id'' of Some (JString i) \<Rightarrow> i \<noteq> [] | Some JOther \<Rightarrow> False | None \<Rightarrow> False) \<and>
     (case firstUnknown raw of
        Some (author, JString body) \<Rightarrow> author \<noteq> [] \<and> body \<noteq> []
      | Some (author, JOther) \<Rightarrow> False
      | None \<Rightarrow> False)"

subsection \<open>The client\<close>

text \<open>
  The status texts of \<open>notifyStatus\<close>. The server URL in two of them is a constant of
  the client and is left out; \<open>ConnectionLost\<close> carries the backoff it prints.
\<close>

datatype status =
    CannotReachServer
  | ConnectionLost int
  | ConnectedToRelay
  | SendFailedUnreachable
  | ServerRejectedKey

text \<open>A call of one of the two callbacks, with its arguments.\<close>

datatype callback =
    OnMessage string string string
  | OnStatusChange bool status

text \<open>
  The mutable state of \<open>NetworkClient\<close>. \<open>stopped\<close> is \<^term>\<open>True\<close> for the value 1,
  and \<open>stopCh\<close> is closed exactly when it is. \<open>hasOnMessage\<close> and
  \<open>hasOnStatusChange\<close> say whether the callback is not nil, and \<open>calls\<close> records the
  calls of the callbacks made so far, oldest first.
\<close>

record NetworkClient =
  stopped :: bool
  lastID :: string
  sentIDs :: "string set"
  hasOnMessage :: bool
  hasOnStatusChange :: bool
  calls :: "callback list"

definition NewNetworkClient :: "bool \<Rightarrow> bool \<Rightarrow> NetworkClient" where
  "NewNetworkClient onMessage onStatusChange =
     \<lparr>stopped = False, lastID = [], sentIDs = {}, hasOnMessage = onMessage,
      hasOnStatusChange = onStatusChange, calls = []\<rparr>"

text \<open>\<open>Stop\<close>: the compare-and-swap of \<open>stopped\<close> from 0 to 1, then \<open>close(stopCh)\<close>.\<close>

definition Stop :: "NetworkClient \<Rightarrow> NetworkClient" where
  "Stop nc = (if \<not> stopped nc then nc\<lparr>stopped := True\<rparr> else nc)"

definition notifyStatus :: "bool \<Rightarrow> status \<Rightarrow> NetworkClient \<Rightarrow> NetworkClient" where
  "notifyStatus connected msg nc =
     (if hasOnStatusChange nc then nc\<lparr>calls := calls nc @ [OnStatusChange connected msg]\<rparr> else nc)"

definition handleIncoming :: "pollMessage \<Rightarrow> NetworkClient \<Rightarrow> NetworkClient" where
  "handleIncoming msg nc =
     (let isMine = pID msg \<in> sentIDs nc;
          nc1 = (if isMine then nc\<lparr>sentIDs := sentIDs nc - {pID msg}\<rparr> else nc)
      in if isMine then nc1
         else if hasOnMessage nc1
              then nc1\<lparr>calls := calls nc1 @ [OnMessage (pUsername msg) (pContent msg) (pColor msg)]\<rparr>
              else nc1)"

text \<open>
  What comes back from the POST of \<open>sendAsync\<close>: an error of \<open>httpClient.Post\<close>, or a
  status code together with the outcome of decoding the body into \<open>sendResponse\<close>
  (\<^term>\<open>None\<close> for a decoding error, otherwise the field \<open>ID\<close>).
\<close>

datatype sendReply = SendError | SendReply int "string option"

text \<open>
  \<open>sendAsync\<close> from the moment the POST returns. The request body is a struct of strings,
  which \<open>json.Marshal\<close> always encodes.
\<close>

definition sendAsync :: "sendReply \<Rightarrow> NetworkClient \<Rightarrow> NetworkClient" where
  "sendAsync reply nc =
     (case reply of
        SendError \<Rightarrow> notifyStatus False SendFailedUnreachable nc
      | SendReply statusCode sr \<Rightarrow>
          if statusCode = 401 then notifyStatus False ServerRejectedKey nc
          else if statusCode = 200 \<or> statusCode = 201
               then (case sr of
                       Some i \<Rightarrow> if i \<noteq> [] then nc\<lparr>sentIDs := insert i (sentIDs nc)\<rparr> else nc
                     | None \<Rightarrow> nc)
               else nc)"

text \<open>
  What comes back from the GET of \<open>poll\<close>: an error of \<open>http.NewRequest\<close> or
  \<open>httpClient.Do\<close>, or a status code with the body, where the body is an error of
  \<open>io.ReadAll\<close> or the outcome of \<open>json.Unmarshal\<close> on the bytes read.
\<close>

datatype pollBody = BodyReadError | Body "rawEntry list option"

datatype pollReply = PollError | PollReply int pollBody

text \<open>
  \<open>poll\<close>. The result is the pair \<open>([]*pollMessage, error)\<close>: \<^term>\<open>Inl e\<close> for an
  error, \<^term>\<open>Inr None\<close> for the nil slice without error, and \<^term>\<open>Inr (Some msgs)\<close>
  for a slice that is not nil.
\<close>

definition poll :: "pollReply \<Rightarrow> NetworkClient \<Rightarrow> (error + pollMessage list option) \<times> NetworkClient" where
  "poll reply nc =
     (case reply of
        PollError \<Rightarrow> (Inl RequestFailed, nc)
      | PollReply statusCode body \<Rightarrow>
          if statusCode = 204 then (Inr None, nc)
          else if statusCode = 401 then (Inl RejectedAccessKey, nc)
          else if statusCode = 200
               then (case body of
                       BodyReadError \<Rightarrow> (Inl ReadPollBody, nc)
                     | Body data \<Rightarrow>
                         (case parsePollMessages data of
                            Inl e \<Rightarrow> (Inl e, nc)
                          | Inr msgs \<Rightarrow>
                              (Inr (Some msgs),
                               if length msgs > 0 then nc\<lparr>lastID := pID (last msgs)\<rparr> else nc)))
               else (Inl (UnexpectedHTTP statusCode), nc))"

subsection \<open>The poll loop\<close>

text \<open>\<open>time.Duration\<close> is a count of nanoseconds in an \<open>int64\<close>.\<close>

definition second :: int where
  "second = 1000000000"

definition maxBackoff :: int where
  "maxBackoff = 30 * second"

definition minDur :: "int \<Rightarrow> int \<Rightarrow> int" where
  "minDur a b = (if a < b then a else b)"

text \<open>The local variables of \<open>pollLoop\<close>; \<open>iteration\<close> only feeds the log.\<close>

record loopState =
  backoff :: int
  firstConnect :: bool
  wasConnected :: bool

definition initialLoopState :: loopState where
  "initialLoopState = \<lparr>backoff = second, firstConnect = True, wasConnected = False\<rparr>"

text \<open>
  What the world does during one iteration of the loop: the reply to the poll, whether
  \<open>Stop\<close> is called while the poll is in flight, and whether \<open>Stop\<close> is called during
  the wait that ends the iteration.
\<close>

record cycle =
  reply :: pollReply
  stopInFlight :: bool
  stopInWait :: bool

datatype loopResult = Continue loopState NetworkClient | Return NetworkClient

text \<open>
  One iteration of the \<open>for\<close> loop of \<open>pollLoop\<close>. A \<open>select\<close> between \<open>stopCh\<close> and
  a timer takes \<open>stopCh\<close> when it is closed already or is closed during the wait.
\<close>

definition pollCycle :: "cycle \<Rightarrow> loopState \<Rightarrow> NetworkClient \<Rightarrow> loopResult" where
  "pollCycle cy ls nc =
     (if stopped nc then Return nc
      else (let nc0 = (if stopInFlight cy then Stop nc else nc);
                res = fst (poll (reply cy) nc0);
                nc1 = snd (poll (reply cy) nc0)
            in case res of
                 Inl err \<Rightarrow>
                   (let nc2 = (if firstConnect ls then notifyStatus False CannotReachServer nc1
                               else if wasConnected ls
                                    then notifyStatus False (ConnectionLost (backoff ls)) nc1
                                    else nc1);
                        ls1 = ls\<lparr>wasConnected := False\<rparr>
                    in if stopped nc2 \<or> stopInWait cy then Return (Stop nc2)
                       else Continue (ls1\<lparr>backoff := minDur (wrapInt (backoff ls1 * 2)) maxBackoff\<rparr>) nc2)
               | Inr msgs \<Rightarrow>
                   (let nc2 = (if firstConnect ls \<or> \<not> wasConnected ls
                               then notifyStatus True ConnectedToRelay nc1 else nc1);
                        ls1 = ls\<lparr>backoff := 1 * second, firstConnect := False, wasConnected := True\<rparr>;
                        nc3 = foldl (\<lambda>n msg. handleIncoming msg n) nc2
                                (case msgs of None \<Rightarrow> [] | Some ms \<Rightarrow> ms)
                    in if msgs = None
                       then (if stopped nc3 \<or> stopInWait cy then Return (Stop nc3)
                             else Continue ls1 nc3)
                       else Continue ls1 nc3)))"

text \<open>
  The loop itself never ends on its own; \<open>pollLoopFrom\<close> runs it for the iterations
  whose replies are given and hands back the state it has reached, or the client as it
  is when the loop has returned.
\<close>

fun pollLoopFrom :: "cycle list \<Rightarrow> loopState \<Rightarrow> NetworkClient \<Rightarrow> loopResult" where
  "pollLoopFrom [] ls nc = Continue ls nc"
| "pollLoopFrom (cy # cys) ls nc =
     (case pollCycle cy ls nc of
        Return nc' \<Rightarrow> Return nc'
      | Continue ls' nc' \<Rightarrow> pollLoopFrom cys ls' nc')"

definition pollLoop :: "cycle list \<Rightarrow> NetworkClient \<Rightarrow> loopResult" where
  "pollLoop cys nc = pollLoopFrom cys initialLoopState nc"

section \<open>Fields left alone by the render operations\<close>

lemma renderMessages_fields [simp]:
  "viewStopped (renderMessages c) = viewStopped c"
  "committedText (renderMessages c) = committedText c"
  "inFlight (renderMessages c) = inFlight c"
  "nextAnimID (renderMessages c) = nextAnimID c"
  "inFlightGen (renderMessages c) = inFlightGen c"
  by (simp_all add: renderMessages_def)

lemma wordTick_fields:
  "viewStopped (wordTick a g p s l c) = viewStopped c"
  "inFlightGen (wordTick a g p s l c) = inFlightGen c"
  "nextAnimID (wordTick a g p s l c) = nextAnimID c"
  by (simp_all add: wordTick_def Let_def)


lemma animInit_fields:
  "\<not> viewStopped c \<Longrightarrow> fst (animInit p c) = (nextAnimID c, inFlightGen c)"
  "viewStopped (snd (animInit p c)) = viewStopped c"
  "inFlightGen (snd (animInit p c)) = inFlightGen c"
  "committedText (snd (animInit p c)) = committedText c"
  by (simp_all add: animInit_def Let_def)



section \<open>Colour tags\<close>












section \<open>Composition of the transcript\<close>

lemma wrapInt_id: "- (2 ^ 63) \<le> x \<Longrightarrow> x < 2 ^ 63 \<Longrightarrow> wrapInt x = x"
  by (simp add: wrapInt_def)

lemma renderLoop_eq:
  "renderLoop i n slots text = text @ concat (map (slotText slots) [i..n - 1])"
proof (induction i n slots "text" rule: renderLoop.induct)
  case (1 i n slots t)
  show ?case
  proof (cases "i < n")
    case True
    have u: "[i..n - 1] = i # [i + 1..n - 1]" using True by (simp add: upto_rec1)
    have c: "(case slots i of Some line \<Rightarrow> t @ line | None \<Rightarrow> t) = t @ slotText slots i"
      by (simp add: slotText_def split: option.splits)
    have "renderLoop i n slots t = renderLoop (i + 1) n slots (t @ slotText slots i)"
      using True by (subst renderLoop.simps) (simp only: c if_True)
    also have "\<dots> = (t @ slotText slots i) @ concat (map (slotText slots) [i + 1..n - 1])"
      using 1 [OF True] by (simp only: c)
    finally show ?thesis by (simp only: u list.map concat.simps append_assoc)
  next
    case False
    then show ?thesis by (subst renderLoop.simps) simp
  qed
qed

lemma concat_map_filter_nonempty:
  "(\<And>x. x \<in> set xs \<Longrightarrow> \<not> P x \<Longrightarrow> f x = []) \<Longrightarrow> concat (map f xs) = concat (map f (filter P xs))"
  by (induction xs) auto

lemma live_filter:
  assumes "dom slots \<subseteq> {0 ..< n}"
  shows "filter (\<lambda>j. j \<in> dom slots) [0..n - 1] = sorted_list_of_set (dom slots)"
proof -
  have fin: "finite (dom slots)" using assms by (rule finite_subset) simp
  have s: "set (filter (\<lambda>j. j \<in> dom slots) [0..n - 1]) = dom slots" using assms by auto
  have "sorted (filter (\<lambda>j. j \<in> dom slots) [0..n - 1])" by (simp add: sorted_wrt_filter)
  moreover have "distinct (filter (\<lambda>j. j \<in> dom slots) [0..n - 1])" by simp
  ultimately show ?thesis
    using s fin by (metis sorted_list_of_set.idem_if_sorted_distinct)
qed

lemma slots_concat:
  assumes "dom slots \<subseteq> {0 ..< n}"
  shows "concat (map (slotText slots) [0..n - 1])
       = concat (map (\<lambda>i. the (slots i)) (sorted_list_of_set (dom slots)))"
proof -
  have "concat (map (slotText slots) [0..n - 1])
      = concat (map (slotText slots) (filter (\<lambda>j. j \<in> dom slots) [0..n - 1]))"
    by (rule concat_map_filter_nonempty) (simp add: slotText_def domIff)
  also have "\<dots> = concat (map (slotText slots) (sorted_list_of_set (dom slots)))"
    by (simp only: live_filter [OF assms])
  also have "map (slotText slots) (sorted_list_of_set (dom slots))
           = map (\<lambda>i. the (slots i)) (sorted_list_of_set (dom slots))"
  proof (rule map_cong [OF refl])
    fix i assume "i \<in> set (sorted_list_of_set (dom slots))"
    moreover have "finite (dom slots)" using assms by (rule finite_subset) simp
    ultimately have "i \<in> dom slots" by simp
    then show "slotText slots i = the (slots i)" by (auto simp: slotText_def)
  qed
  finally show ?thesis .
qed

lemma renderMessages_inv:
  assumes "dom (inFlight c) \<subseteq> {0 ..< nextAnimID c}"
  shows "renderInv (renderMessages c)"
proof -
  have "messageView (renderMessages c)
      = committedText c @ concat (map (slotText (inFlight c)) [0..nextAnimID c - 1])"
    unfolding renderMessages_def renderLoop_eq by simp
  also have "\<dots> = composedTranscript (renderMessages c)"
    by (simp add: composedTranscript_def liveSlots_def slots_concat [OF assms])
  finally show ?thesis using assms by (simp add: renderInv_def)
qed

lemma dom_upd_range:
  assumes "dom slots \<subseteq> {0 ..< (n::int)}" "0 \<le> a" "a < n'" "n \<le> n'"
  shows "dom (slots(a \<mapsto> v)) \<subseteq> {0 ..< n'}"
proof
  fix x assume "x \<in> dom (slots(a \<mapsto> v))"
  then have "x = a \<or> x \<in> dom slots" by (auto split: if_splits)
  then show "x \<in> {0 ..< n'}"
  proof
    assume "x = a" then show ?thesis using assms(2,3) by simp
  next
    assume "x \<in> dom slots"
    then have "x \<in> {0 ..< n}" using assms(1) by (rule subsetD [rotated])
    then show ?thesis using assms(4) by simp
  qed
qed

lemma dom_del_range:
  assumes "dom slots \<subseteq> {0 ..< (n::int)}"
  shows "dom (slots(a := None)) \<subseteq> {0 ..< n}"
proof
  fix x assume "x \<in> dom (slots(a := None))"
  then have "x \<in> dom slots" by (auto split: if_splits)
  then show "x \<in> {0 ..< n}" using assms by (rule subsetD [rotated])
qed

lemma renderInvD: "renderInv c \<Longrightarrow> dom (inFlight c) \<subseteq> {0 ..< nextAnimID c}"
  by (simp add: renderInv_def)

lemma AddMessage_props:
  "nextAnimID (AddMessage m c) = nextAnimID c" "inFlightGen (AddMessage m c) = inFlightGen c"
  "renderInv c \<Longrightarrow> renderInv (AddMessage m c)"
  by (simp_all add: AddMessage_def renderMessages_inv renderInvD)

lemma staticDraw_props:
  "nextAnimID (staticDraw p x c) = nextAnimID c" "inFlightGen (staticDraw p x c) = inFlightGen c"
  "renderInv c \<Longrightarrow> renderInv (staticDraw p x c)"
  by (simp_all add: staticDraw_def renderMessages_inv renderInvD)

lemma SetMessages_props:
  "nextAnimID (SetMessages ms c) = nextAnimID c" "inFlightGen (SetMessages ms c) = inFlightGen c"
  "renderInv c \<Longrightarrow> renderInv (SetMessages ms c)"
  by (simp_all add: SetMessages_def renderMessages_inv)

lemma ClearMessages_props:
  "nextAnimID (ClearMessages c) = nextAnimID c"
  "inFlightGen (ClearMessages c) = wrapInt (inFlightGen c + 1)"
  "renderInv (ClearMessages c)"
  by (simp_all add: ClearMessages_def renderMessages_inv)

lemma StopView_props:
  "nextAnimID (StopView c) = nextAnimID c" "inFlightGen (StopView c) = inFlightGen c"
  "renderInv c \<Longrightarrow> renderInv (StopView c)"
  by (simp_all add: StopView_def renderInv_def composedTranscript_def liveSlots_def)

lemma animInit_props:
  "nextAnimID (snd (animInit p c)) = (if viewStopped c then nextAnimID c else wrapInt (nextAnimID c + 1))"
  "fst (animInit p c) = (if viewStopped c then (- 1, - 1) else (nextAnimID c, inFlightGen c))"
  by (simp_all add: animInit_def Let_def)

lemma animInit_inv:
  assumes "renderInv c" "0 \<le> nextAnimID c" "nextAnimID c < 2 ^ 63 - 1"
  shows "renderInv (snd (animInit p c))"
proof (cases "viewStopped c")
  case True
  then show ?thesis using assms(1) by (simp add: animInit_def)
next
  case False
  have d: "dom (inFlight c) \<subseteq> {0 ..< nextAnimID c}" using assms(1) by (rule renderInvD)
  have w: "wrapInt (nextAnimID c + 1) = nextAnimID c + 1"
    using assms(2,3) by (intro wrapInt_id) simp_all
  have "dom ((inFlight c)(nextAnimID c \<mapsto> v)) \<subseteq> {0 ..< nextAnimID c + 1}" for v
    using d assms(2) by (intro dom_upd_range [where n = "nextAnimID c"]) simp_all
  then show ?thesis
    using False by (simp add: animInit_def Let_def w renderMessages_inv)
qed

lemma wordTick_inv:
  assumes "renderInv c" "0 \<le> a" "a < nextAnimID c"
  shows "renderInv (wordTick a g p s l c)"
proof -
  have d: "dom (inFlight c) \<subseteq> {0 ..< nextAnimID c}" using assms(1) by (rule renderInvD)
  have 1: "dom ((inFlight c)(a \<mapsto> v)) \<subseteq> {0 ..< nextAnimID c}" for v
    using d assms(2,3) by (intro dom_upd_range [where n = "nextAnimID c"]) simp_all
  have 2: "dom ((inFlight c)(a := None)) \<subseteq> {0 ..< nextAnimID c}"
    using d by (rule dom_del_range)
  show ?thesis
    using assms(1) 1 2 by (simp add: wordTick_def Let_def renderMessages_inv)
qed

section \<open>Every turn of the event loop keeps the invariant\<close>

lemma slotIds_append:
  "slotIds (s\<lparr>goroutines := goroutines s @ [t]\<rparr>) =
     slotIds s @ (if 0 \<le> fst (fst t) then [fst (fst t)] else [])"
  by (simp add: slotIds_def)

lemma sorted_snoc_less:
  "sorted_wrt (<) xs \<Longrightarrow> (\<And>x. x \<in> set xs \<Longrightarrow> x < (y::int)) \<Longrightarrow> sorted_wrt (<) (xs @ [y])"
  by (simp add: sorted_wrt_append)

lemma slotIds_below:
  assumes "\<forall>t \<in> set (goroutines s). fst (fst t) < n \<and> Q t" "x \<in> set (slotIds s)"
  shows "x < n"
  using assms by (auto simp: slotIds_def)

lemma stepSystem_animInit_inv:
  assumes "sysInv n s" "n < 2 ^ 63 - 1"
  shows "sysInv (n + 1) (stepSystem (UAnimInit p) s)"
proof -
  let ?c = "view s"
  from assms(1) have ri: "renderInv ?c" and n0: "0 \<le> nextAnimID ?c" and n1: "nextAnimID ?c \<le> n"
    and g0: "0 \<le> inFlightGen ?c" and g1: "inFlightGen ?c \<le> n"
    and gs: "\<forall>t \<in> set (goroutines s). fst (fst t) < nextAnimID ?c \<and> snd (fst t) \<le> inFlightGen ?c"
    and so: "sorted_wrt (<) (slotIds s)"
    by (simp_all add: sysInv_def)
  have lt: "nextAnimID ?c < 2 ^ 63 - 1" using n1 assms(2) by simp
  have w: "wrapInt (nextAnimID ?c + 1) = nextAnimID ?c + 1"
    using n0 lt by (intro wrapInt_id) simp_all
  have ri': "renderInv (snd (animInit p ?c))" using ri n0 lt by (rule animInit_inv)
  have ge: "inFlightGen (snd (animInit p ?c)) = inFlightGen ?c" by (simp add: animInit_fields)
  show ?thesis
  proof (cases "viewStopped ?c")
    case True
    have sl: "slotIds (stepSystem (UAnimInit p) s) = slotIds s"
      using True by (simp add: slotIds_def animInit_props)
    show ?thesis
      unfolding sysInv_def sl
      using True ri' n0 n1 g0 g1 gs so by (auto simp: animInit_props ge)
  next
    case False
    have sl: "slotIds (stepSystem (UAnimInit p) s) = slotIds s @ [nextAnimID ?c]"
      using False n0 by (simp add: slotIds_def animInit_props)
    have so': "sorted_wrt (<) (slotIds s @ [nextAnimID ?c])"
      using so slotIds_below [OF gs] by (intro sorted_snoc_less)
    show ?thesis
      unfolding sysInv_def sl
      using False ri' n0 n1 g0 g1 gs so' by (auto simp: animInit_props ge w)
  qed
qed

lemma slotIds_view [simp]: "slotIds (s\<lparr>view := c\<rparr>) = slotIds s"
  by (simp add: slotIds_def)

lemma sysInv_view:
  assumes "sysInv n s" "renderInv c" "nextAnimID c = nextAnimID (view s)"
    "inFlightGen (view s) \<le> inFlightGen c" "inFlightGen c \<le> n + 1"
  shows "sysInv (n + 1) (s\<lparr>view := c\<rparr>)"
  using assms unfolding sysInv_def by (auto intro: order_trans)

lemma stepSystem_inv:
  assumes "sysInv n s" "n < 2 ^ 63 - 1"
  shows "sysInv (n + 1) (stepSystem u s)"
proof (cases u)
  case (UAddMessage m)
  show ?thesis unfolding UAddMessage stepSystem.simps applyUpdate.simps
    using assms(1) by (intro sysInv_view assms) (simp_all add: AddMessage_props sysInv_def)
next
  case (UStaticDraw p x)
  show ?thesis unfolding UStaticDraw stepSystem.simps applyUpdate.simps
    using assms(1) by (intro sysInv_view assms) (simp_all add: staticDraw_props sysInv_def)
next
  case (UAnimInit p)
  show ?thesis unfolding UAnimInit using assms by (rule stepSystem_animInit_inv)
next
  case (UWordTick a g p sn l)
  show ?thesis
  proof (cases "((a, g), p) \<in> set (goroutines s) \<and> 0 \<le> a")
    case True
    then have "a < nextAnimID (view s)" using assms(1) by (auto simp: sysInv_def)
    then have "renderInv (wordTick a g p sn l (view s))"
      using True assms(1) by (intro wordTick_inv) (simp_all add: sysInv_def)
    then have "sysInv (n + 1) (s\<lparr>view := wordTick a g p sn l (view s)\<rparr>)"
      using assms(1) by (intro sysInv_view assms) (simp_all add: wordTick_fields sysInv_def)
    then show ?thesis unfolding UWordTick using True by simp
  next
    case False
    have "sysInv (n + 1) s" using assms(1) unfolding sysInv_def by auto
    then show ?thesis unfolding UWordTick using False by auto
  qed
next
  case (USetMessages ms)
  show ?thesis unfolding USetMessages stepSystem.simps applyUpdate.simps
    using assms(1) by (intro sysInv_view assms) (simp_all add: SetMessages_props sysInv_def)
next
  case UClearMessages
  have "inFlightGen (view s) < 2 ^ 63 - 1" "0 \<le> inFlightGen (view s)"
    using assms by (simp_all add: sysInv_def)
  then have w: "wrapInt (inFlightGen (view s) + 1) = inFlightGen (view s) + 1"
    by (intro wrapInt_id) simp_all
  show ?thesis unfolding UClearMessages stepSystem.simps applyUpdate.simps
    using assms(1) by (intro sysInv_view assms) (simp_all add: ClearMessages_props w sysInv_def)
next
  case UStop
  show ?thesis unfolding UStop stepSystem.simps applyUpdate.simps
    using assms(1) by (intro sysInv_view assms) (simp_all add: StopView_props sysInv_def)
qed

lemma sysInv_New: "sysInv 0 NewSystem"
  by (simp add: sysInv_def NewSystem_def NewChatView_def renderInv_def composedTranscript_def
      liveSlots_def slotIds_def)

lemma runSystem_append: "runSystem (us @ vs) s = runSystem vs (runSystem us s)"
  by (induction us arbitrary: s) simp_all

lemma runSystem_inv:
  "sysInv n s \<Longrightarrow> n + int (length us) < 2 ^ 63 \<Longrightarrow> sysInv (n + int (length us)) (runSystem us s)"
proof (induction us arbitrary: n s)
  case Nil
  then show ?case by simp
next
  case (Cons u us)
  have "sysInv (n + 1) (stepSystem u s)" using Cons.prems by (intro stepSystem_inv) simp_all
  then have "sysInv (n + 1 + int (length us)) (runSystem us (stepSystem u s))"
    using Cons.prems by (intro Cons.IH) simp_all
  then show ?case by (simp add: ac_simps)
qed

lemma reachable_inv:
  "int (length us) < 2 ^ 63 \<Longrightarrow> sysInv (int (length us)) (runSystem us NewSystem)"
  using runSystem_inv [OF sysInv_New, of us] by simp

lemma applyUpdate_counters:
  assumes "0 \<le> nextAnimID c" "nextAnimID c < 2 ^ 63 - 1"
  shows "nextAnimID c \<le> nextAnimID (applyUpdate u c)"
proof -
  have w: "wrapInt (nextAnimID c + 1) = nextAnimID c + 1"
    using assms by (intro wrapInt_id) simp_all
  show ?thesis
    by (cases u)
      (simp_all add: AddMessage_props staticDraw_props SetMessages_props ClearMessages_props
        StopView_props wordTick_fields animInit_props w)
qed

lemma applyUpdate_gen:
  assumes "0 \<le> inFlightGen c" "inFlightGen c < 2 ^ 63 - 1"
  shows "inFlightGen c \<le> inFlightGen (applyUpdate u c)"
proof -
  have w: "wrapInt (inFlightGen c + 1) = inFlightGen c + 1"
    using assms by (intro wrapInt_id) simp_all
  show ?thesis
    by (cases u)
      (simp_all add: AddMessage_props staticDraw_props SetMessages_props ClearMessages_props
        StopView_props wordTick_fields animInit_fields w)
qed

lemma stepSystem_view:
  "view (stepSystem u s) = applyUpdate u (view s) \<or> view (stepSystem u s) = view s"
  by (cases u) simp_all

lemma stepSystem_goroutines: "\<exists>ts. goroutines (stepSystem u s) = goroutines s @ ts"
  by (cases u) simp_all

lemma stepSystem_mono:
  assumes "sysInv n s" "n < 2 ^ 63 - 1"
  shows "nextAnimID (view s) \<le> nextAnimID (view (stepSystem u s))"
    and "inFlightGen (view s) \<le> inFlightGen (view (stepSystem u s))"
proof -
  have b: "0 \<le> nextAnimID (view s)" "nextAnimID (view s) < 2 ^ 63 - 1"
    "0 \<le> inFlightGen (view s)" "inFlightGen (view s) < 2 ^ 63 - 1"
    using assms by (simp_all add: sysInv_def)
  show "nextAnimID (view s) \<le> nextAnimID (view (stepSystem u s))"
    using stepSystem_view [of u s] applyUpdate_counters [OF b(1,2), of u] by auto
  show "inFlightGen (view s) \<le> inFlightGen (view (stepSystem u s))"
    using stepSystem_view [of u s] applyUpdate_gen [OF b(3,4), of u] by auto
qed

lemma runSystem_mono:
  "sysInv n s \<Longrightarrow> n + int (length us) < 2 ^ 63 \<Longrightarrow>
   nextAnimID (view s) \<le> nextAnimID (view (runSystem us s)) \<and>
   inFlightGen (view s) \<le> inFlightGen (view (runSystem us s)) \<and>
   (\<exists>ts. goroutines (runSystem us s) = goroutines s @ ts)"
proof (induction us arbitrary: n s)
  case Nil
  then show ?case by simp
next
  case (Cons u us)
  have lt: "n < 2 ^ 63 - 1" using Cons.prems by simp
  have i: "sysInv (n + 1) (stepSystem u s)" using Cons.prems(1) lt by (rule stepSystem_inv)
  have "n + 1 + int (length us) < 2 ^ 63" using Cons.prems by simp
  from Cons.IH [OF i this] stepSystem_mono [OF Cons.prems(1) lt, of u]
    stepSystem_goroutines [of u s]
  show ?case by auto
qed

lemma wordTick_stale: "inFlightGen c \<noteq> myGen \<Longrightarrow> wordTick animID myGen prefix snapshot isLast c = c"
  by (simp add: wordTick_def)

lemma wordTick_other_slot:
  "k \<noteq> animID \<Longrightarrow> inFlight (wordTick animID myGen prefix snapshot isLast c) k = inFlight c k"
  by (simp add: wordTick_def Let_def)


section \<open>The transcript, the slot counter and the generation counter\<close>

text \<open>
  Claim C4. The visible transcript is the committed buffer followed by the text of every
  live slot in ascending order of slot id. \<open>renderMessages\<close> establishes this equation
  whenever the live slot ids lie below the counter, \<open>ClearMessages\<close> establishes it
  outright, and it holds after every turn of the event loop: for every list of fewer
  than \<open>2^63\<close> updates run from the new view, in whatever order the goroutines and the
  other callers queued them, the text of the message view equals the composed transcript
  and every live slot id lies below the counter. The bound keeps the counters, which are
  Go \<open>int\<close>s, from wrapping around.
\<close>

theorem transcript_composed:
  "(dom (inFlight c) \<subseteq> {0 ..< nextAnimID c} \<longrightarrow>
      messageView (renderMessages c) = composedTranscript (renderMessages c)) \<and>
   messageView (ClearMessages c) = composedTranscript (ClearMessages c) \<and>
   (int (length us) < 2 ^ 63 \<longrightarrow>
      messageView (view (runSystem us NewSystem)) = composedTranscript (view (runSystem us NewSystem)) \<and>
      set (liveSlots (view (runSystem us NewSystem)))
        \<subseteq> {0 ..< nextAnimID (view (runSystem us NewSystem))})"
proof -
  have 1: "dom (inFlight c) \<subseteq> {0 ..< nextAnimID c} \<longrightarrow>
      messageView (renderMessages c) = composedTranscript (renderMessages c)"
    using renderMessages_inv [of c] by (simp add: renderInv_def)
  have 2: "messageView (ClearMessages c) = composedTranscript (ClearMessages c)"
    using ClearMessages_props(3) [of c] by (simp add: renderInv_def)
  have 3: "int (length us) < 2 ^ 63 \<longrightarrow>
      messageView (view (runSystem us NewSystem)) = composedTranscript (view (runSystem us NewSystem)) \<and>
      set (liveSlots (view (runSystem us NewSystem)))
        \<subseteq> {0 ..< nextAnimID (view (runSystem us NewSystem))}"
  proof
    assume "int (length us) < 2 ^ 63"
    then have "renderInv (view (runSystem us NewSystem))"
      using reachable_inv [of us] by (simp add: sysInv_def)
    then have e: "messageView (view (runSystem us NewSystem)) = composedTranscript (view (runSystem us NewSystem))"
      and d: "dom (inFlight (view (runSystem us NewSystem))) \<subseteq> {0 ..< nextAnimID (view (runSystem us NewSystem))}"
      by (simp_all add: renderInv_def)
    have "finite (dom (inFlight (view (runSystem us NewSystem))))"
      using d by (rule finite_subset) simp
    then have "set (liveSlots (view (runSystem us NewSystem))) = dom (inFlight (view (runSystem us NewSystem)))"
      by (simp add: liveSlots_def)
    then show "messageView (view (runSystem us NewSystem)) = composedTranscript (view (runSystem us NewSystem)) \<and>
      set (liveSlots (view (runSystem us NewSystem)))
        \<subseteq> {0 ..< nextAnimID (view (runSystem us NewSystem))}"
      using e d by simp
  qed
  show ?thesis using 1 2 3 by (intro conjI)
qed

theorem transcript_composed_witness:
  "messageView (view (runSystem [UAnimInit ''p'', UStaticDraw ''q'' ''x'', UWordTick 0 0 ''p'' ''hi'' False] NewSystem))
     = ''qx[-]'' @ newline @ ''phi [dim]'' @ glyphCursor @ ''[-]'' \<and>
   composedTranscript (view (runSystem [UAnimInit ''p'', UStaticDraw ''q'' ''x'', UWordTick 0 0 ''p'' ''hi'' False] NewSystem))
     = ''qx[-]'' @ newline @ ''phi [dim]'' @ glyphCursor @ ''[-]'' \<and>
   messageView (renderMessages NewChatView) = composedTranscript (renderMessages NewChatView)"
proof -
  let ?us = "[UAnimInit ''p'', UStaticDraw ''q'' ''x'', UWordTick 0 0 ''p'' ''hi'' False]"
  have ev: "messageView (view (runSystem ?us NewSystem))
      = ''qx[-]'' @ newline @ ''phi [dim]'' @ glyphCursor @ ''[-]''"
    by (simp add: NewSystem_def NewChatView_def animInit_def wrapInt_def Let_def renderMessages_def
        renderLoop.simps wordTick_def staticDraw_def sanitizeContent_def)
  have h: "int (length ?us) < 2 ^ 63" by simp
  have d: "dom (inFlight NewChatView) \<subseteq> {0 ..< nextAnimID NewChatView}"
    by (simp add: NewChatView_def)
  have t: "messageView (view (runSystem ?us NewSystem)) = composedTranscript (view (runSystem ?us NewSystem))"
    and r: "messageView (renderMessages NewChatView) = composedTranscript (renderMessages NewChatView)"
    using transcript_composed [of NewChatView ?us] h d by blast+
  show ?thesis using ev t r by simp
qed


text \<open>
  Claim C10. The slot counter \<open>nextAnimID\<close> is never reset: \<open>ClearMessages\<close> and
  \<open>SetMessages\<close> leave it as it is, and no update decreases it while it is below the
  largest \<open>int\<close>. A word tick writes no slot other than its own. For every run of
  fewer than \<open>2^63\<close> updates from the new view, split at any point: the counter after
  the whole run is at least the counter at the split, the slot ids handed out after the
  split are greater than all those handed out before, the slot ids handed out increase
  strictly in the order of allocation and are distinct, each lies between 0 and the
  counter, and the next allocation on a view that is not stopped receives the counter,
  which is greater than every id handed out so far.
\<close>

theorem nextAnimID_never_reset:
  "nextAnimID (ClearMessages c) = nextAnimID c \<and>
   nextAnimID (SetMessages messages c) = nextAnimID c \<and>
   (0 \<le> nextAnimID c \<and> nextAnimID c < 2 ^ 63 - 1 \<longrightarrow> nextAnimID c \<le> nextAnimID (applyUpdate u c)) \<and>
   (k \<noteq> animID \<longrightarrow> inFlight (wordTick animID myGen prefix snapshot isLast c) k = inFlight c k) \<and>
   (int (length us) + int (length vs) < 2 ^ 63 \<longrightarrow>
      (let s = runSystem us NewSystem; s' = runSystem vs s
       in nextAnimID (view s) \<le> nextAnimID (view s') \<and>
          (\<exists>ids. slotIds s' = slotIds s @ ids \<and>
                 (\<forall>j \<in> set ids. \<forall>i \<in> set (slotIds s). i < j)) \<and>
          sorted_wrt (<) (slotIds s') \<and> distinct (slotIds s') \<and>
          (\<forall>i \<in> set (slotIds s'). 0 \<le> i \<and> i < nextAnimID (view s')) \<and>
          (\<not> viewStopped (view s') \<longrightarrow>
             fst (fst (animInit prefix (view s'))) = nextAnimID (view s') \<and>
             (\<forall>i \<in> set (slotIds s'). i < nextAnimID (view s')))))"
proof -
  have 3: "0 \<le> nextAnimID c \<and> nextAnimID c < 2 ^ 63 - 1 \<longrightarrow> nextAnimID c \<le> nextAnimID (applyUpdate u c)"
    using applyUpdate_counters [of c u] by blast
  have 4: "k \<noteq> animID \<longrightarrow> inFlight (wordTick animID myGen prefix snapshot isLast c) k = inFlight c k"
    using wordTick_other_slot [of k animID myGen prefix snapshot isLast c] by blast
  have 5: "int (length us) + int (length vs) < 2 ^ 63 \<longrightarrow>
      (let s = runSystem us NewSystem; s' = runSystem vs s
       in nextAnimID (view s) \<le> nextAnimID (view s') \<and>
          (\<exists>ids. slotIds s' = slotIds s @ ids \<and>
                 (\<forall>j \<in> set ids. \<forall>i \<in> set (slotIds s). i < j)) \<and>
          sorted_wrt (<) (slotIds s') \<and> distinct (slotIds s') \<and>
          (\<forall>i \<in> set (slotIds s'). 0 \<le> i \<and> i < nextAnimID (view s')) \<and>
          (\<not> viewStopped (view s') \<longrightarrow>
             fst (fst (animInit prefix (view s'))) = nextAnimID (view s') \<and>
             (\<forall>i \<in> set (slotIds s'). i < nextAnimID (view s'))))"
  proof
    assume b: "int (length us) + int (length vs) < 2 ^ 63"
    define s where "s = runSystem us NewSystem"
    define s' where "s' = runSystem vs s"
    have bu: "int (length us) < 2 ^ 63" using b by simp
    have i: "sysInv (int (length us)) s" unfolding s_def using bu by (rule reachable_inv)
    have m: "nextAnimID (view s) \<le> nextAnimID (view s')"
      and g: "\<exists>ts. goroutines s' = goroutines s @ ts"
      using runSystem_mono [OF i b] unfolding s'_def by blast+
    have "s' = runSystem (us @ vs) NewSystem" by (simp add: s'_def s_def runSystem_append)
    moreover have "int (length (us @ vs)) < 2 ^ 63" using b by simp
    ultimately have "sysInv (int (length (us @ vs))) s'" using reachable_inv [of "us @ vs"] by simp
    then have so: "sorted_wrt (<) (slotIds s')"
      and gs: "\<forall>t \<in> set (goroutines s'). fst (fst t) < nextAnimID (view s')"
      by (simp_all add: sysInv_def)
    have bd: "\<forall>i \<in> set (slotIds s'). 0 \<le> i \<and> i < nextAnimID (view s')"
      using gs by (auto simp: slotIds_def)
    from g obtain ts where ts: "goroutines s' = goroutines s @ ts" ..
    define ids where "ids = filter (\<lambda>i. 0 \<le> i) (map (\<lambda>t. fst (fst t)) ts)"
    have ap: "slotIds s' = slotIds s @ ids" by (simp add: slotIds_def ts ids_def)
    have lt: "\<forall>j \<in> set ids. \<forall>i \<in> set (slotIds s). i < j"
      using so unfolding ap by (simp add: sorted_wrt_append)
    have di: "distinct (slotIds s')" using so by (simp add: strict_sorted_iff)
    have al: "\<not> viewStopped (view s') \<longrightarrow>
             fst (fst (animInit prefix (view s'))) = nextAnimID (view s') \<and>
             (\<forall>i \<in> set (slotIds s'). i < nextAnimID (view s'))"
      using bd by (simp add: animInit_props)
    show "let s = runSystem us NewSystem; s' = runSystem vs s
       in nextAnimID (view s) \<le> nextAnimID (view s') \<and>
          (\<exists>ids. slotIds s' = slotIds s @ ids \<and>
                 (\<forall>j \<in> set ids. \<forall>i \<in> set (slotIds s). i < j)) \<and>
          sorted_wrt (<) (slotIds s') \<and> distinct (slotIds s') \<and>
          (\<forall>i \<in> set (slotIds s'). 0 \<le> i \<and> i < nextAnimID (view s')) \<and>
          (\<not> viewStopped (view s') \<longrightarrow>
             fst (fst (animInit prefix (view s'))) = nextAnimID (view s') \<and>
             (\<forall>i \<in> set (slotIds s'). i < nextAnimID (view s')))"
      unfolding Let_def s_def [symmetric] s'_def [symmetric]
      using m ap lt so di bd al by blast
  qed
  show ?thesis
    using 3 4 5 by (intro conjI) (simp_all add: ClearMessages_props SetMessages_props)
qed


theorem nextAnimID_never_reset_witness:
  "slotIds (runSystem [UAnimInit ''q''] (runSystem [UAnimInit ''p'', UClearMessages] NewSystem)) = [0, 1] \<and>
   sorted_wrt (<) (slotIds (runSystem [UAnimInit ''q''] (runSystem [UAnimInit ''p'', UClearMessages] NewSystem))) \<and>
   nextAnimID (view (runSystem [UAnimInit ''p'', UClearMessages] NewSystem)) = 1 \<and>
   nextAnimID (view (runSystem [UAnimInit ''p'', UClearMessages] NewSystem))
     \<le> nextAnimID (view (runSystem [UAnimInit ''q''] (runSystem [UAnimInit ''p'', UClearMessages] NewSystem))) \<and>
   nextAnimID NewChatView \<le> nextAnimID (applyUpdate (UAnimInit ''p'') NewChatView) \<and>
   inFlight (wordTick 0 0 ''p'' ''hi'' False NewChatView) 1 = inFlight NewChatView 1"
proof -
  let ?us = "[UAnimInit ''p'', UClearMessages]"
  let ?vs = "[UAnimInit ''q'']"
  have h: "int (length ?us) + int (length ?vs) < 2 ^ 63" by simp
  have b: "0 \<le> nextAnimID NewChatView \<and> nextAnimID NewChatView < 2 ^ 63 - 1"
    by (simp add: NewChatView_def)
  have k: "(1::int) \<noteq> 0" by simp
  note t = nextAnimID_never_reset [of NewChatView _ "UAnimInit ''p''" 1 0 0 "''p''" "''hi''" False ?us ?vs]
  have 1: "nextAnimID NewChatView \<le> nextAnimID (applyUpdate (UAnimInit ''p'') NewChatView)"
    using t b by blast
  have 2: "inFlight (wordTick 0 0 ''p'' ''hi'' False NewChatView) 1 = inFlight NewChatView 1"
    using t k by blast
  have 3: "sorted_wrt (<) (slotIds (runSystem ?vs (runSystem ?us NewSystem)))"
    and 4: "nextAnimID (view (runSystem ?us NewSystem))
       \<le> nextAnimID (view (runSystem ?vs (runSystem ?us NewSystem)))"
    using t h unfolding Let_def by blast+
  have 5: "slotIds (runSystem ?vs (runSystem ?us NewSystem)) = [0, 1]"
    by (simp add: slotIds_def NewSystem_def NewChatView_def animInit_def wrapInt_def Let_def
        ClearMessages_def)
  have 6: "nextAnimID (view (runSystem ?us NewSystem)) = 1"
    by (simp add: NewSystem_def NewChatView_def animInit_def wrapInt_def Let_def ClearMessages_def)
  show ?thesis using 1 2 3 4 5 6 by (intro conjI)
qed


text \<open>
  Claim C2. A word tick whose captured generation differs from the current one changes
  nothing: it returns the view as it is. For every run of fewer than \<open>2^63\<close> updates
  from the new view in which \<open>ClearMessages\<close> runs after a goroutine was started, the
  generation that goroutine captured is below the current one at every later moment, so
  each of its word ticks, a slot update or the final commit, leaves the view and the
  system unchanged.
\<close>

theorem stale_tick_noop:
  "(inFlightGen c \<noteq> myGen \<longrightarrow> wordTick animID myGen prefix snapshot isLast c = c) \<and>
   (int (length us) + int (length vs) + 1 < 2 ^ 63 \<and>
    ((animID, myGen), prefix) \<in> set (goroutines (runSystem us NewSystem)) \<longrightarrow>
      (let s = runSystem (us @ UClearMessages # vs) NewSystem
       in myGen < inFlightGen (view s) \<and>
          wordTick animID myGen prefix snapshot isLast (view s) = view s \<and>
          stepSystem (UWordTick animID myGen prefix snapshot isLast) s = s))"
proof -
  have 1: "inFlightGen c \<noteq> myGen \<longrightarrow> wordTick animID myGen prefix snapshot isLast c = c"
    using wordTick_stale [of c myGen] by blast
  have 2: "int (length us) + int (length vs) + 1 < 2 ^ 63 \<and>
    ((animID, myGen), prefix) \<in> set (goroutines (runSystem us NewSystem)) \<longrightarrow>
      (let s = runSystem (us @ UClearMessages # vs) NewSystem
       in myGen < inFlightGen (view s) \<and>
          wordTick animID myGen prefix snapshot isLast (view s) = view s \<and>
          stepSystem (UWordTick animID myGen prefix snapshot isLast) s = s)"
  proof
    assume a: "int (length us) + int (length vs) + 1 < 2 ^ 63 \<and>
      ((animID, myGen), prefix) \<in> set (goroutines (runSystem us NewSystem))"
    define s0 where "s0 = runSystem us NewSystem"
    define s1 where "s1 = stepSystem UClearMessages s0"
    define s where "s = runSystem vs s1"
    have bu: "int (length us) < 2 ^ 63" using a by simp
    have i0: "sysInv (int (length us)) s0" unfolding s0_def using bu by (rule reachable_inv)
    have lt: "int (length us) < 2 ^ 63 - 1" using a by simp
    have i1: "sysInv (int (length us) + 1) s1" unfolding s1_def using i0 lt by (rule stepSystem_inv)
    have g0: "myGen \<le> inFlightGen (view s0)"
      using i0 a unfolding s0_def [symmetric] sysInv_def by force
    have b0: "0 \<le> inFlightGen (view s0)" "inFlightGen (view s0) < 2 ^ 63 - 1"
      using i0 lt by (simp_all add: sysInv_def)
    have w: "wrapInt (inFlightGen (view s0) + 1) = inFlightGen (view s0) + 1"
      using b0 by (intro wrapInt_id) simp_all
    have g1: "inFlightGen (view s1) = inFlightGen (view s0) + 1"
      by (simp add: s1_def ClearMessages_props w)
    have "int (length us) + 1 + int (length vs) < 2 ^ 63" using a by simp
    then have g2: "inFlightGen (view s1) \<le> inFlightGen (view s)"
      using runSystem_mono [OF i1] unfolding s_def by blast
    have e: "runSystem (us @ UClearMessages # vs) NewSystem = s"
      by (simp add: runSystem_append s_def s1_def s0_def)
    have l: "myGen < inFlightGen (view s)" using g0 g1 g2 by simp
    then have n: "wordTick animID myGen prefix snapshot isLast (view s) = view s"
      by (intro wordTick_stale) simp
    then have "stepSystem (UWordTick animID myGen prefix snapshot isLast) s = s" by simp
    then show "let s = runSystem (us @ UClearMessages # vs) NewSystem
       in myGen < inFlightGen (view s) \<and>
          wordTick animID myGen prefix snapshot isLast (view s) = view s \<and>
          stepSystem (UWordTick animID myGen prefix snapshot isLast) s = s"
      unfolding e Let_def using l n by simp
  qed
  show ?thesis using 1 2 by (intro conjI)
qed

theorem stale_tick_noop_witness:
  "inFlightGen (view (runSystem [UAnimInit ''p'', UClearMessages] NewSystem)) = 1 \<and>
   ((0, 0), ''p'') \<in> set (goroutines (runSystem [UAnimInit ''p''] NewSystem)) \<and>
   stepSystem (UWordTick 0 0 ''p'' ''hi'' True) (runSystem [UAnimInit ''p'', UClearMessages] NewSystem)
     = runSystem [UAnimInit ''p'', UClearMessages] NewSystem \<and>
   wordTick 0 0 ''p'' ''hi'' True (ClearMessages NewChatView) = ClearMessages NewChatView"
proof -
  have g: "inFlightGen (view (runSystem [UAnimInit ''p'', UClearMessages] NewSystem)) = 1"
    by (simp add: NewSystem_def NewChatView_def animInit_def wrapInt_def Let_def ClearMessages_def)
  have m: "((0, 0), ''p'') \<in> set (goroutines (runSystem [UAnimInit ''p''] NewSystem))"
    by (simp add: NewSystem_def NewChatView_def animInit_def Let_def)
  have h: "int (length [UAnimInit ''p'']) + int (length ([]::update list)) + 1 < 2 ^ 63" by simp
  have c: "inFlightGen (ClearMessages NewChatView) \<noteq> 0"
    by (simp add: ClearMessages_def NewChatView_def wrapInt_def)
  note t = stale_tick_noop [of "ClearMessages NewChatView" 0 0 "''p''" "''hi''" True "[UAnimInit ''p'']" "[]"]
  have 1: "wordTick 0 0 ''p'' ''hi'' True (ClearMessages NewChatView) = ClearMessages NewChatView"
    using t c by blast
  have 2: "stepSystem (UWordTick 0 0 ''p'' ''hi'' True) (runSystem [UAnimInit ''p'', UClearMessages] NewSystem)
     = runSystem [UAnimInit ''p'', UClearMessages] NewSystem"
    using t h m unfolding Let_def append.simps by blast
  show ?thesis using g m 1 2 by (intro conjI)
qed

end
